theory Spec2Isabelle
  imports Main
begin

section \<open>Data model of PromisePool.ts\<close>

text \<open>
  The source type \<^verbatim>\<open>OnError = 'abort' | 'drain' | 'continue'\<close>.
\<close>

datatype OnError = Abort | Drain | Continue

text \<open>
  How the promise returned by \<^verbatim>\<open>task(index)\<close> settles. Within one run every index is
  handed to the task at most once, so the behaviour of the caller's task in a run is a
  function from the index to the way its promise settles. When (and whether) a promise
  settles is decided by the schedule, see \<open>settle\<close> below.
\<close>

datatype 'e task_outcome = Fulfilled | Rejected 'e

text \<open>
  \<^verbatim>\<open>PromisePoolOptions\<close>. The numbers of the source are modelled as unbounded integers
  (negative values included, the source does not exclude them).
\<close>

record 'e PromisePoolOptions =
  concurrency :: int
  count :: int
  task :: "int \<Rightarrow> 'e task_outcome"
  onError :: OnError

text \<open>
  A call of \<^verbatim>\<open>resolve()\<close>, of \<^verbatim>\<open>reject(e)\<close> with a task's own failure value, or of
  \<^verbatim>\<open>reject(new AggregateError(errors, message))\<close>.
\<close>

datatype 'e delivery = Resolve | Reject 'e | RejectAggregate "'e list" string

text \<open>
  The variables captured by the closures of \<^verbatim>\<open>PromisePool\<close> (\<open>completed\<close> to \<open>errors\<close>),
  followed by what the surroundings of the scheduler observe: the indices the task was
  called with (\<open>invoked\<close>, in call order), the indices whose promise has handlers attached
  and has not settled yet (\<open>pending\<close>), the indices whose handler has run (\<open>settled\<close>, in
  the order of resolution), and the calls of \<^verbatim>\<open>resolve\<close> and \<^verbatim>\<open>reject\<close> made so far
  (\<open>delivered\<close>).
\<close>

record 'e pool =
  completed :: int
  ongoing :: int
  started :: int
  ended :: bool
  draining :: bool
  errors :: "'e list"
  invoked :: "int list"
  pending :: "int list"
  settled :: "int list"
  delivered :: "'e delivery list"

definition initial :: "'e pool" where
  "initial = \<lparr>completed = 0, ongoing = 0, started = 0, ended = False, draining = False,
     errors = [], invoked = [], pending = [], settled = [], delivered = []\<rparr>"

section \<open>The summary message\<close>

text \<open>The template literal \<^verbatim>\<open>`${errors.length} task(s) failed`\<close>: decimal digits of the length.\<close>

definition digit_char :: "nat \<Rightarrow> char" where
  "digit_char d = ''0123456789'' ! d"

function decimal :: "nat \<Rightarrow> string" where
  "decimal n = (if n < 10 then [digit_char n] else decimal (n div 10) @ [digit_char (n mod 10)])"
  by pat_completeness auto
termination
  by (relation "measure id") auto

definition failed_message :: "nat \<Rightarrow> string" where
  "failed_message n = decimal n @ '' task(s) failed''"

section \<open>The scheduler\<close>

text \<open>\<^verbatim>\<open>checkCompletion\<close> (lines 40 to 57).\<close>

definition checkCompletion :: "'e PromisePoolOptions \<Rightarrow> 'e pool \<Rightarrow> 'e pool" where
  "checkCompletion cfg s =
     (if ended s then s
      else
        let finished = completed s + int (length (errors s));
            allStartedFinished = (started s = finished + ongoing s \<and> ongoing s = 0);
            allTasksCompleted = (completed s \<ge> count cfg)
        in if allTasksCompleted \<or> (draining s \<and> allStartedFinished)
           then (let s1 = s\<lparr>ended := True\<rparr>
                 in if length (errors s1) > 0
                    then s1\<lparr>delivered := delivered s1 @
                            [RejectAggregate (errors s1) (failed_message (length (errors s1)))]\<rparr>
                    else s1\<lparr>delivered := delivered s1 @ [Resolve]\<rparr>)
           else s)"

text \<open>
  The launch inside \<^verbatim>\<open>trigger\<close> (lines 79 to 83): the next index is \<open>started\<close>, both
  counters go up, the task is called with the index and the two handlers are attached
  to its promise. Handlers of a promise never run inside the call that attaches them,
  so the launch only records the promise as pending.
\<close>

definition launch :: "'e pool \<Rightarrow> 'e pool" where
  "launch s =
     (let index = started s
      in s\<lparr>started := started s + 1, ongoing := ongoing s + 1,
           invoked := invoked s @ [index], pending := pending s @ [index]\<rparr>)"

text \<open>\<^verbatim>\<open>trigger\<close> (lines 59 to 116), with its call of itself after a launch.\<close>

function trigger :: "'e PromisePoolOptions \<Rightarrow> 'e pool \<Rightarrow> 'e pool" where
  "trigger cfg s =
     (if ended s then s
      else if completed s \<ge> count cfg then checkCompletion cfg s
      else if draining s then checkCompletion cfg s
      else if completed s + ongoing s \<ge> count cfg then s
      else if ongoing s < concurrency cfg then trigger cfg (launch s)
      else s)"
  by pat_completeness auto
termination
  by (relation "measure (\<lambda>(cfg, s). nat (concurrency cfg - ongoing s))")
     (auto simp: launch_def Let_def)

declare trigger.simps [simp del]

text \<open>The fulfilment handler (lines 84 to 88).\<close>

definition on_fulfilled :: "'e PromisePoolOptions \<Rightarrow> 'e pool \<Rightarrow> 'e pool" where
  "on_fulfilled cfg s =
     trigger cfg (s\<lparr>ongoing := ongoing s - 1, completed := completed s + 1\<rparr>)"

text \<open>The rejection handler (lines 89 to 111).\<close>

definition on_rejected :: "'e PromisePoolOptions \<Rightarrow> 'e \<Rightarrow> 'e pool \<Rightarrow> 'e pool" where
  "on_rejected cfg e s =
     (let s1 = s\<lparr>ongoing := ongoing s - 1, errors := errors s @ [e]\<rparr>
      in case onError cfg of
           Abort \<Rightarrow>
             (if \<not> ended s1 then s1\<lparr>ended := True, delivered := delivered s1 @ [Reject e]\<rparr>
              else s1)
         | Drain \<Rightarrow> checkCompletion cfg (s1\<lparr>draining := True\<rparr>)
         | Continue \<Rightarrow> trigger cfg (s1\<lparr>completed := completed s1 + 1\<rparr>))"

text \<open>
  One step of the surroundings: the promise of index \<open>i\<close> settles and its handler runs
  to its end. A promise settles once, and only a launched task has one, so an index
  that is not pending leaves the state as it is.
\<close>

definition settle :: "'e PromisePoolOptions \<Rightarrow> 'e pool \<Rightarrow> int \<Rightarrow> 'e pool" where
  "settle cfg s i =
     (if i \<in> set (pending s)
      then (let s1 = s\<lparr>pending := remove1 i (pending s), settled := settled s @ [i]\<rparr>
            in case task cfg i of
                 Fulfilled \<Rightarrow> on_fulfilled cfg s1
               | Rejected e \<Rightarrow> on_rejected cfg e s1)
      else s)"

text \<open>The loop of the executor (lines 118 to 120), from the value \<open>i\<close> of its counter.\<close>

function fill :: "'e PromisePoolOptions \<Rightarrow> int \<Rightarrow> 'e pool \<Rightarrow> 'e pool" where
  "fill cfg i s =
     (if i < concurrency cfg \<and> i < count cfg then fill cfg (i + 1) (trigger cfg s) else s)"
  by pat_completeness auto
termination
  by (relation "measure (\<lambda>(cfg, i, s). nat (count cfg - i))") auto

declare fill.simps [simp del]

text \<open>
  The executor passed to \<^verbatim>\<open>new Promise\<close> (lines 32 to 125): the state after the
  synchronous part of \<^verbatim>\<open>PromisePool\<close>.
\<close>

definition PromisePool :: "'e PromisePoolOptions \<Rightarrow> 'e pool" where
  "PromisePool cfg =
     (let s = fill cfg 0 initial
      in if count cfg = 0 then s\<lparr>delivered := delivered s @ [Resolve]\<rparr> else s)"

text \<open>
  A run: the executor, then the promises settling in the order the schedule gives.
  Every state \<open>run cfg sched\<close> is a point between two indivisible pieces of scheduler
  code, and every such point of an execution is \<open>run cfg sched\<close> for the schedule so far.
\<close>

definition run :: "'e PromisePoolOptions \<Rightarrow> int list \<Rightarrow> 'e pool" where
  "run cfg sched = foldl (settle cfg) (PromisePool cfg) sched"

section \<open>Observations on a run\<close>

text \<open>
  The failure values of the tasks of a list of indices, in the order of the list. Over
  \<open>settled s\<close> these are the failures the scheduler has observed, in the order in which
  the tasks resolved.
\<close>

definition failures :: "'e PromisePoolOptions \<Rightarrow> int list \<Rightarrow> 'e list" where
  "failures cfg js = concat (map (\<lambda>i. case task cfg i of Fulfilled \<Rightarrow> [] | Rejected e \<Rightarrow> [e]) js)"

text \<open>Whether the task of an index fails.\<close>

definition fails :: "'e PromisePoolOptions \<Rightarrow> int \<Rightarrow> bool" where
  "fails cfg i = (case task cfg i of Fulfilled \<Rightarrow> False | Rejected e \<Rightarrow> True)"

text \<open>
  The delivery a finished run is expected to have made, read off the collected errors:
  the first error itself under \<open>Abort\<close>, the aggregate of all of them otherwise.
\<close>

definition terminal :: "'e PromisePoolOptions \<Rightarrow> 'e pool \<Rightarrow> 'e delivery" where
  "terminal cfg s =
     (if errors s = [] then Resolve
      else if onError cfg = Abort then Reject (hd (errors s))
      else RejectAggregate (errors s) (failed_message (length (errors s))))"

text \<open>
  Decimal numerals, read independently of the code that prints them: the value of a
  digit (its place among the ten digits), the value of a string of digits read from the
  left, and what it means for a string to be the decimal numeral of a number (digits
  only, at least one, no leading zero on a numeral of several digits, and the right
  value).
\<close>

definition digit_value :: "char \<Rightarrow> nat" where
  "digit_value c = length (takeWhile (\<lambda>d. d \<noteq> c) ''0123456789'')"

definition digits_value :: "string \<Rightarrow> nat" where
  "digits_value ds = foldl (\<lambda>a c. 10 * a + digit_value c) 0 ds"

definition decimal_numeral :: "string \<Rightarrow> nat \<Rightarrow> bool" where
  "decimal_numeral ds n \<longleftrightarrow>
     ds \<noteq> [] \<and> set ds \<subseteq> set ''0123456789'' \<and>
     (length ds = 1 \<or> hd ds \<noteq> CHR ''0'') \<and> digits_value ds = n"

section \<open>Invariants of the scheduler state\<close>

text \<open>The equation between the counters, with \<open>errors.length\<close> as its third term.\<close>

definition accounted :: "'e pool \<Rightarrow> bool" where
  "accounted s \<longleftrightarrow> started s = completed s + int (length (errors s)) + ongoing s"

text \<open>
  The counters agree with what the surroundings observe: the indices handed out are
  \<open>0\<close> up to \<open>started - 1\<close> in this order, every one of them is either pending or settled
  and never both or twice, \<open>ongoing\<close> counts the pending ones, \<open>errors\<close> holds the
  failures of the settled ones, and \<open>completed\<close> counts the settled tasks under
  \<open>Continue\<close> and the fulfilled ones under the other two policies.
\<close>

definition bookkeeping :: "'e PromisePoolOptions \<Rightarrow> 'e pool \<Rightarrow> bool" where
  "bookkeeping cfg s \<longleftrightarrow>
     0 \<le> started s \<and> invoked s = [0..started s - 1] \<and>
     distinct (settled s @ pending s) \<and>
     set (settled s) \<union> set (pending s) = set (invoked s) \<and>
     ongoing s = int (length (pending s)) \<and>
     started s = int (length (settled s)) + ongoing s \<and>
     errors s = failures cfg (settled s) \<and>
     completed s = (if onError cfg = Continue then int (length (settled s))
                    else int (length (settled s)) - int (length (errors s)))"

text \<open>
  No index beyond \<open>count - 1\<close> is handed out, and no more than \<open>concurrency\<close> tasks are
  in flight; both also when \<open>count\<close> or \<open>concurrency\<close> is not positive, where nothing is
  ever launched.
\<close>

definition limits :: "'e PromisePoolOptions \<Rightarrow> 'e pool \<Rightarrow> bool" where
  "limits cfg s \<longleftrightarrow>
     (started s = 0 \<or> started s \<le> count cfg) \<and>
     (ongoing s = 0 \<or> ongoing s \<le> concurrency cfg)"

text \<open>
  The flags under each policy: only \<open>Drain\<close> sets \<open>draining\<close>, and does so with the first
  failure; under \<open>Abort\<close> a failure ends the run.
\<close>

definition policy :: "'e PromisePoolOptions \<Rightarrow> 'e pool \<Rightarrow> bool" where
  "policy cfg s \<longleftrightarrow>
     (onError cfg = Abort \<longrightarrow> \<not> draining s \<and> (errors s = [] \<or> ended s)) \<and>
     (onError cfg = Drain \<longrightarrow> (draining s \<longleftrightarrow> errors s \<noteq> [])) \<and>
     (onError cfg = Continue \<longrightarrow> \<not> draining s)"

text \<open>
  For a run with \<open>count \<noteq> 0\<close>: a delivery has been made exactly when \<open>ended\<close> is set, and
  then it is the one \<open>terminal\<close> describes; a run that has ended has nothing in flight
  unless it was aborted; and a run ends only by \<open>completed \<ge> count\<close>, by draining, or by
  a failure under \<open>Abort\<close>.
\<close>

definition closing :: "'e PromisePoolOptions \<Rightarrow> 'e pool \<Rightarrow> bool" where
  "closing cfg s \<longleftrightarrow>
     delivered s = (if ended s then [terminal cfg s] else []) \<and>
     (\<not> ended s \<or> pending s = [] \<or> (onError cfg = Abort \<and> errors s \<noteq> [])) \<and>
     (\<not> ended s \<or> count cfg \<le> completed s \<or> draining s \<or> (onError cfg = Abort \<and> errors s \<noteq> []))"

definition pool_inv :: "'e PromisePoolOptions \<Rightarrow> 'e pool \<Rightarrow> bool" where
  "pool_inv cfg s \<longleftrightarrow> bookkeeping cfg s \<and> limits cfg s \<and> policy cfg s \<and> closing cfg s"

text \<open>
  What holds in addition whenever the scheduler has handed control back: a run with
  work and slots that has not ended has a task in flight, and a draining run has ended
  exactly when nothing is in flight.
\<close>

definition quiet :: "'e PromisePoolOptions \<Rightarrow> 'e pool \<Rightarrow> bool" where
  "quiet cfg s \<longleftrightarrow>
     (0 < concurrency cfg \<and> 0 < count cfg \<and> \<not> ended s \<longrightarrow> pending s \<noteq> []) \<and>
     (draining s \<longrightarrow> (ended s \<longleftrightarrow> ongoing s = 0))"

section \<open>Example configurations\<close>

text \<open>Three tasks, two slots; the task of index 1 fails, the others succeed.\<close>

definition demo_task :: "int \<Rightarrow> string task_outcome" where
  "demo_task i = (if i = 1 then Rejected ''boom'' else Fulfilled)"

definition demo :: "OnError \<Rightarrow> string PromisePoolOptions" where
  "demo p = \<lparr>concurrency = 2, count = 3, task = demo_task, onError = p\<rparr>"

text \<open>
  The state in which the fulfilment handler of the task of index 0, settling first,
  calls \<^verbatim>\<open>trigger\<close>: its promise is no longer pending, \<open>ongoing\<close> has gone down and
  \<open>completed\<close> up.
\<close>

definition first_fulfilled :: "string pool" where
  "first_fulfilled =
     (PromisePool (demo Abort))\<lparr>pending := [1], settled := [0], ongoing := 1, completed := 1\<rparr>"

section \<open>Effect of the building blocks on the fields\<close>

lemma checkCompletion_fields [simp]:
  "completed (checkCompletion cfg s) = completed s"
  "ongoing (checkCompletion cfg s) = ongoing s"
  "started (checkCompletion cfg s) = started s"
  "draining (checkCompletion cfg s) = draining s"
  "errors (checkCompletion cfg s) = errors s"
  "invoked (checkCompletion cfg s) = invoked s"
  "pending (checkCompletion cfg s) = pending s"
  "settled (checkCompletion cfg s) = settled s"
  by (simp_all add: checkCompletion_def Let_def)

lemma launch_fields [simp]:
  "completed (launch s) = completed s"
  "ongoing (launch s) = ongoing s + 1"
  "started (launch s) = started s + 1"
  "ended (launch s) = ended s"
  "draining (launch s) = draining s"
  "errors (launch s) = errors s"
  "invoked (launch s) = invoked s @ [started s]"
  "pending (launch s) = pending s @ [started s]"
  "settled (launch s) = settled s"
  "delivered (launch s) = delivered s"
  by (simp_all add: launch_def Let_def)

lemma failures_append: "failures cfg (xs @ ys) = failures cfg xs @ failures cfg ys"
  by (simp add: failures_def)

lemma length_failures: "length (failures cfg js) = length (filter (fails cfg) js)"
  by (induction js) (auto simp: failures_def fails_def split: task_outcome.splits)

lemma length_failures_le: "length (failures cfg js) \<le> length js"
  by (simp add: length_failures)

lemma checkCompletion_idle:
  assumes "ended s \<or>
     \<not> (count cfg \<le> completed s \<or>
        draining s \<and> started s = completed s + int (length (errors s)) + ongoing s \<and> ongoing s = 0)"
  shows "checkCompletion cfg s = s"
  using assms by (auto simp: checkCompletion_def Let_def)

lemma trigger_ended: "ended s \<Longrightarrow> trigger cfg s = s"
  by (subst trigger.simps) simp

lemma trigger_draining: "draining s \<Longrightarrow> trigger cfg s = checkCompletion cfg s"
  by (subst trigger.simps) (simp add: checkCompletion_def)

lemma trigger_waits:
  assumes "\<not> ended s" "completed s < count cfg" "\<not> draining s"
    "count cfg \<le> completed s + ongoing s \<or> concurrency cfg \<le> ongoing s"
  shows "trigger cfg s = s"
  using assms by (subst trigger.simps) auto

lemma trigger_invoked_grows: "length (invoked s) \<le> length (invoked (trigger cfg s))"
proof (induction cfg s rule: trigger.induct)
  case (1 cfg s)
  show ?case
    using "1.IH" by (subst trigger.simps) (auto simp: not_le)
qed

lemma trigger_launches:
  assumes "\<not> ended s" "completed s < count cfg" "\<not> draining s"
    "completed s + ongoing s < count cfg" "ongoing s < concurrency cfg"
  shows "trigger cfg s = trigger cfg (launch s)" and "invoked (trigger cfg s) \<noteq> invoked s"
proof -
  show eq: "trigger cfg s = trigger cfg (launch s)"
    using assms by (subst trigger.simps) simp
  have "length (invoked (launch s)) \<le> length (invoked (trigger cfg (launch s)))"
    by (rule trigger_invoked_grows)
  then have "length (invoked s) < length (invoked (trigger cfg s))"
    by (simp add: eq)
  then show "invoked (trigger cfg s) \<noteq> invoked s" by auto
qed


lemma fill_idle: "\<not> (i < concurrency cfg \<and> i < count cfg) \<Longrightarrow> fill cfg i s = s"
  by (subst fill.simps) auto

lemma settle_idle: "i \<notin> set (pending s) \<Longrightarrow> settle cfg s i = s"
  by (simp add: settle_def)

lemma settle_fulfilled:
  "i \<in> set (pending s) \<Longrightarrow> task cfg i = Fulfilled \<Longrightarrow>
   settle cfg s i = trigger cfg (s\<lparr>pending := remove1 i (pending s), settled := settled s @ [i],
           ongoing := ongoing s - 1, completed := completed s + 1\<rparr>)"
  by (simp add: settle_def on_fulfilled_def Let_def)

lemma settle_rejected_abort:
  "i \<in> set (pending s) \<Longrightarrow> task cfg i = Rejected e \<Longrightarrow> onError cfg = Abort \<Longrightarrow>
   settle cfg s i = s\<lparr>pending := remove1 i (pending s), settled := settled s @ [i],
           ongoing := ongoing s - 1, errors := errors s @ [e], ended := True,
           delivered := (if ended s then delivered s else delivered s @ [Reject e])\<rparr>"
  by (simp add: settle_def on_rejected_def Let_def)

lemma settle_rejected_drain:
  "i \<in> set (pending s) \<Longrightarrow> task cfg i = Rejected e \<Longrightarrow> onError cfg = Drain \<Longrightarrow>
   settle cfg s i = checkCompletion cfg
     (s\<lparr>pending := remove1 i (pending s), settled := settled s @ [i],
           ongoing := ongoing s - 1, errors := errors s @ [e], draining := True\<rparr>)"
  by (simp add: settle_def on_rejected_def Let_def)

lemma settle_rejected_continue:
  "i \<in> set (pending s) \<Longrightarrow> task cfg i = Rejected e \<Longrightarrow> onError cfg = Continue \<Longrightarrow>
   settle cfg s i = trigger cfg
     (s\<lparr>pending := remove1 i (pending s), settled := settled s @ [i],
           ongoing := ongoing s - 1, errors := errors s @ [e], completed := completed s + 1\<rparr>)"
  by (simp add: settle_def on_rejected_def Let_def)

lemma settle_draining:
  assumes "draining s"
  shows "draining (settle cfg s i)" and "invoked (settle cfg s i) = invoked s"
    and "started (settle cfg s i) = started s"
    and "ongoing (settle cfg s i) = (if i \<in> set (pending s) then ongoing s - 1 else ongoing s)"
  using assms
  by (auto simp: settle_def on_fulfilled_def on_rejected_def Let_def trigger_draining
      split: task_outcome.splits OnError.splits)

lemma settle_after_end:
  assumes "ended s"
  shows "ended (settle cfg s i)" and "delivered (settle cfg s i) = delivered s"
    and "invoked (settle cfg s i) = invoked s" and "started (settle cfg s i) = started s"
  using assms
  by (auto simp: settle_def on_fulfilled_def on_rejected_def Let_def trigger_ended
      checkCompletion_def split: task_outcome.splits OnError.splits)

lemma foldl_settle_after_end:
  "ended s \<Longrightarrow>
   ended (foldl (settle cfg) s rest) \<and> delivered (foldl (settle cfg) s rest) = delivered s \<and>
   invoked (foldl (settle cfg) s rest) = invoked s"
proof (induction rest arbitrary: s)
  case Nil
  then show ?case by simp
next
  case (Cons i rest)
  show ?case
    using Cons.IH[of "settle cfg s i"] settle_after_end[OF Cons.prems, of cfg i] by simp
qed


section \<open>The summary message is the decimal numeral of the number of errors\<close>

lemma small_cases:
  "(d::nat) < 10 \<Longrightarrow> d = 0 \<or> d = 1 \<or> d = 2 \<or> d = 3 \<or> d = 4 \<or> d = 5 \<or> d = 6 \<or> d = 7 \<or> d = 8 \<or> d = 9"
  by arith

lemma digit_char_digit: "d < 10 \<Longrightarrow> digit_char d \<in> set ''0123456789''"
  using small_cases[of d] by (auto simp: digit_char_def)

lemma digit_value_digit_char: "d < 10 \<Longrightarrow> digit_value (digit_char d) = d"
  using small_cases[of d] by (auto simp: digit_char_def digit_value_def)

lemma digit_char_zero: "d < 10 \<Longrightarrow> digit_char d = CHR ''0'' \<longleftrightarrow> d = 0"
  using small_cases[of d] by (auto simp: digit_char_def)

lemma digit_value_less: "c \<in> set ''0123456789'' \<Longrightarrow> digit_value c < 10"
  by (auto simp: digit_value_def)

lemma digit_char_digit_value: "c \<in> set ''0123456789'' \<Longrightarrow> digit_char (digit_value c) = c"
  by (auto simp: digit_char_def digit_value_def)

lemma digit_value_zero: "c \<in> set ''0123456789'' \<Longrightarrow> digit_value c = 0 \<longleftrightarrow> c = CHR ''0''"
  by (auto simp: digit_value_def)

lemma digits_value_snoc: "digits_value (ds @ [c]) = 10 * digits_value ds + digit_value c"
  by (simp add: digits_value_def)

lemma digits_value_Nil: "digits_value [] = 0"
  by (simp add: digits_value_def)

lemma decimal_nonempty: "decimal n \<noteq> []"
  by (subst decimal.simps) simp

lemma decimal_digits: "set (decimal n) \<subseteq> set ''0123456789''"
proof (induction n rule: decimal.induct)
  case (1 n)
  have m: "digit_char (n mod 10) \<in> set ''0123456789''"
    by (rule digit_char_digit) simp
  show ?case
  proof (cases "n < 10")
    case True
    then show ?thesis
      using digit_char_digit[of n] by (subst decimal.simps) simp
  next
    case False
    then have "set (decimal (n div 10)) \<subseteq> set ''0123456789''"
      using "1.IH" by simp
    then show ?thesis
      using False m by (subst decimal.simps) simp
  qed
qed

lemma decimal_value: "digits_value (decimal n) = n"
proof (induction n rule: decimal.induct)
  case (1 n)
  show ?case
  proof (cases "n < 10")
    case True
    then show ?thesis
      using digits_value_snoc[of "[]" "digit_char n"]
      by (subst decimal.simps) (simp add: digits_value_Nil digit_value_digit_char)
  next
    case False
    then have "digits_value (decimal (n div 10)) = n div 10"
      using "1.IH" by simp
    then show ?thesis
      using False
      by (subst decimal.simps) (simp add: digits_value_snoc digit_value_digit_char)
  qed
qed

lemma decimal_leading: "0 < n \<Longrightarrow> hd (decimal n) \<noteq> CHR ''0''"
proof (induction n rule: decimal.induct)
  case (1 n)
  show ?case
  proof (cases "n < 10")
    case True
    then show ?thesis
      using "1.prems" digit_char_zero[of n] by (subst decimal.simps) simp
  next
    case False
    then have "hd (decimal (n div 10)) \<noteq> CHR ''0''"
      using "1.IH" by simp
    then show ?thesis
      using False decimal_nonempty[of "n div 10"] by (subst decimal.simps) simp
  qed
qed

lemma decimal_single: "n < 10 \<Longrightarrow> decimal n = [digit_char n]"
  by (subst decimal.simps) simp

lemma decimal_is_numeral: "decimal_numeral (decimal n) n"
proof -
  have "length (decimal n) = 1 \<or> hd (decimal n) \<noteq> CHR ''0''"
  proof (cases "n < 10")
    case True
    then show ?thesis by (simp add: decimal_single)
  next
    case False
    then show ?thesis using decimal_leading[of n] by simp
  qed
  then show ?thesis
    using decimal_nonempty[of n] decimal_digits[of n] decimal_value[of n]
    unfolding decimal_numeral_def by blast
qed

lemma digits_value_positive:
  assumes "ds \<noteq> []" "set ds \<subseteq> set ''0123456789''" "hd ds \<noteq> CHR ''0''"
  shows "0 < digits_value ds"
  using assms
proof (induction ds rule: rev_induct)
  case Nil
  then show ?case by simp
next
  case (snoc c ds)
  show ?case
  proof (cases "ds = []")
    case True
    then have "c \<in> set ''0123456789''" "c \<noteq> CHR ''0''"
      using snoc.prems by simp_all
    then have "digit_value c \<noteq> 0"
      using digit_value_zero[of c] by blast
    moreover have "digits_value ([] @ [c]) = 10 * digits_value [] + digit_value c"
      by (rule digits_value_snoc)
    ultimately show ?thesis
      using True by (simp add: digits_value_Nil)
  next
    case False
    then have "0 < digits_value ds"
      using snoc.IH snoc.prems by simp
    then show ?thesis by (simp add: digits_value_snoc)
  qed
qed

lemma numeral_is_decimal: "decimal_numeral ds n \<Longrightarrow> ds = decimal n"
proof (induction n arbitrary: ds rule: decimal.induct)
  case (1 n)
  have ne: "ds \<noteq> []" and dg: "set ds \<subseteq> set ''0123456789''"
    and ld: "length ds = 1 \<or> hd ds \<noteq> CHR ''0''" and vl: "digits_value ds = n"
    using "1.prems" by (simp_all add: decimal_numeral_def)
  obtain bs c where ds: "ds = bs @ [c]"
    using ne by (cases ds rule: rev_cases) auto
  have cd: "c \<in> set ''0123456789''" and bd: "set bs \<subseteq> set ''0123456789''"
    using dg ds by simp_all
  have v: "n = 10 * digits_value bs + digit_value c"
    using vl ds by (simp add: digits_value_snoc)
  have cl: "digit_value c < 10" using cd by (rule digit_value_less)
  have vm: "digit_value c = n mod 10" and vd: "digits_value bs = n div 10"
    using v cl by simp_all
  have cc: "c = digit_char (n mod 10)"
    using digit_char_digit_value[OF cd] vm by simp
  show ?case
  proof (cases "n < 10")
    case True
    have "bs = []"
    proof (rule ccontr)
      assume b: "bs \<noteq> []"
      then have "hd bs \<noteq> CHR ''0''"
        using ld ds by (cases bs) simp_all
      then have "0 < digits_value bs"
        using digits_value_positive[OF b bd] by simp
      then show False using vd True by simp
    qed
    then show ?thesis
      using ds cc True by (simp add: decimal_single)
  next
    case False
    have b: "bs \<noteq> []"
    proof
      assume "bs = []"
      then have "n = digit_value c" using v by (simp add: digits_value_Nil)
      then show False using cl False by simp
    qed
    have "hd bs \<noteq> CHR ''0''"
      using ld ds b by (cases bs) simp_all
    then have "decimal_numeral bs (n div 10)"
      using b bd vd by (simp add: decimal_numeral_def)
    then have "bs = decimal (n div 10)"
      using "1.IH" False by simp
    then show ?thesis
      using ds cc False by (subst decimal.simps) simp
  qed
qed

lemma failed_message_numeral:
  "failed_message n = ds @ '' task(s) failed'' \<longleftrightarrow> decimal_numeral ds n"
proof -
  have "failed_message n = ds @ '' task(s) failed'' \<longleftrightarrow> decimal n = ds"
    unfolding failed_message_def by (rule append_same_eq)
  also have "\<dots> \<longleftrightarrow> decimal_numeral ds n"
    using decimal_is_numeral[of n] numeral_is_decimal[of ds n] by blast
  finally show ?thesis .
qed

section \<open>The counter equation, step by step\<close>

lemma accounted_checkCompletion: "accounted (checkCompletion cfg s) = accounted s"
  by (simp add: accounted_def)

lemma accounted_trigger: "accounted s \<Longrightarrow> accounted (trigger cfg s)"
proof (induction cfg s rule: trigger.induct)
  case (1 cfg s)
  have "accounted (launch s)"
    using "1.prems" by (simp add: accounted_def)
  then show ?case
    using "1.prems" "1.IH" by (subst trigger.simps) (simp add: accounted_checkCompletion)
qed

lemma accounted_settle:
  assumes "accounted s" "onError cfg \<noteq> Continue"
  shows "accounted (settle cfg s i)"
proof -
  have f: "accounted (s\<lparr>pending := p, settled := q, ongoing := ongoing s - 1,
                         completed := completed s + 1\<rparr>)" for p q
    using assms(1) by (simp add: accounted_def)
  have r: "accounted (s\<lparr>pending := p, settled := q, ongoing := ongoing s - 1,
                         errors := errors s @ [e]\<rparr>)" for p q e
    using assms(1) by (simp add: accounted_def)
  have ra: "accounted (s\<lparr>pending := p, settled := q, ongoing := ongoing s - 1,
                         errors := errors s @ [e], ended := True, delivered := d\<rparr>)" for p q e d
    using assms(1) by (simp add: accounted_def)
  have rd: "accounted (s\<lparr>pending := p, settled := q, ongoing := ongoing s - 1,
                         errors := errors s @ [e], draining := True\<rparr>)" for p q e
    using assms(1) by (simp add: accounted_def)
  show ?thesis
    using assms f r ra rd accounted_trigger[of _ cfg]
    by (auto simp: settle_def on_fulfilled_def on_rejected_def Let_def accounted_checkCompletion
        split: task_outcome.splits OnError.splits)
qed

section \<open>The invariant through a launch, the completion check and the dispatch step\<close>

lemma bookkeeping_launch:
  assumes "bookkeeping cfg s"
  shows "bookkeeping cfg (launch s)"
proof -
  have a: "[0..started s] = [0..started s - 1] @ [started s]"
    using assms upto_rec2[of 0 "started s"] by (simp add: bookkeeping_def)
  have b: "started s \<notin> set (invoked s)"
    using assms by (simp add: bookkeeping_def)
  have c: "set (settled s) \<union> set (pending s) = set (invoked s)"
    using assms by (simp add: bookkeeping_def)
  from b c have d: "started s \<notin> set (settled s)" "started s \<notin> set (pending s)"
    by auto
  show ?thesis
    using assms a b c d unfolding bookkeeping_def
    by simp
qed

lemma pool_inv_launch:
  assumes "pool_inv cfg s" "\<not> ended s" "\<not> draining s"
    "completed s + ongoing s < count cfg" "ongoing s < concurrency cfg"
  shows "pool_inv cfg (launch s)"
proof -
  have bk: "bookkeeping cfg s" and pl: "policy cfg s" and cl: "closing cfg s"
    using assms(1) by (simp_all add: pool_inv_def)
  have st: "started s = completed s + ongoing s"
    using bk pl assms(2,3) by (cases "onError cfg") (simp_all add: policy_def bookkeeping_def)
  have "limits cfg (launch s)"
    using st assms(4,5) by (simp add: limits_def)
  moreover have "policy cfg (launch s)"
    using pl by (simp add: policy_def)
  moreover have "closing cfg (launch s)"
    using cl assms(2) by (simp add: closing_def terminal_def)
  ultimately show ?thesis
    using bookkeeping_launch[OF bk] by (simp add: pool_inv_def)
qed

lemma pool_inv_ongoing: "pool_inv cfg s \<Longrightarrow> ongoing s = int (length (pending s))"
  by (simp add: pool_inv_def bookkeeping_def)

lemma pool_inv_accounting:
  assumes "pool_inv cfg s" "onError cfg \<noteq> Continue"
  shows "started s = completed s + int (length (errors s)) + ongoing s"
  using assms by (simp add: pool_inv_def bookkeeping_def)

lemma pool_inv_ended_idle:
  assumes "pool_inv cfg s" "ended s" "onError cfg \<noteq> Abort \<or> errors s = []"
  shows "pending s = []"
  using assms by (auto simp: pool_inv_def closing_def)

lemma pool_inv_exhausted_idle:
  assumes "pool_inv cfg s" "count cfg \<le> completed s"
  shows "pending s = []"
proof -
  have bk: "bookkeeping cfg s" and lm: "limits cfg s"
    using assms(1) by (simp_all add: pool_inv_def)
  have og: "ongoing s = int (length (pending s))"
    and st: "started s = int (length (settled s)) + ongoing s"
    and cp: "completed s \<le> int (length (settled s))"
    using bk by (simp_all add: bookkeeping_def)
  have "started s = 0 \<or> started s \<le> count cfg"
    using lm by (simp add: limits_def)
  then have "length (pending s) = 0"
    using og st cp assms(2) by linarith
  then show ?thesis by simp
qed

lemma pool_inv_running:
  assumes "pool_inv cfg s" "i \<in> set (pending s)" "onError cfg \<noteq> Abort"
  shows "\<not> ended s"
  using assms by (auto simp: pool_inv_def closing_def)

lemma pool_inv_checkCompletion:
  assumes "pool_inv cfg s"
  shows "pool_inv cfg (checkCompletion cfg s)"
proof (cases "ended s")
  case True
  then show ?thesis using assms by (simp add: checkCompletion_def)
next
  case False
  have bk: "bookkeeping cfg s" and lm: "limits cfg s" and pl: "policy cfg s" and cl: "closing cfg s"
    using assms(1) by (simp_all add: pool_inv_def)
  have idle: "pending s = []" if "count cfg \<le> completed s"
  proof -
    have og: "ongoing s = int (length (pending s))"
      and st: "started s = int (length (settled s)) + ongoing s"
      and cp: "completed s \<le> int (length (settled s))"
      using bk by (simp_all add: bookkeeping_def)
    have "started s = 0 \<or> started s \<le> count cfg"
      using lm by (simp add: limits_def)
    then have "length (pending s) = 0"
      using og st cp that by linarith
    then show ?thesis by simp
  qed
  have idle2: "pending s = []" if "ongoing s = 0"
    using bk that by (simp add: bookkeeping_def)
  have ab: "errors s = []" if "onError cfg = Abort"
    using pl that False by (simp add: policy_def)
  have "bookkeeping cfg (checkCompletion cfg s)"
    using bk by (simp add: bookkeeping_def)
  moreover have "limits cfg (checkCompletion cfg s)"
    using lm by (simp add: limits_def)
  moreover have "policy cfg (checkCompletion cfg s)"
    using pl by (auto simp: policy_def checkCompletion_def Let_def)
  moreover have "closing cfg (checkCompletion cfg s)"
    using cl False idle idle2 ab
    by (auto simp: closing_def checkCompletion_def Let_def terminal_def)
  ultimately show ?thesis by (simp add: pool_inv_def)
qed

lemma pool_inv_trigger: "pool_inv cfg s \<Longrightarrow> pool_inv cfg (trigger cfg s)"
proof (induction cfg s rule: trigger.induct)
  case (1 cfg s)
  show ?case
    using "1.prems" "1.IH" pool_inv_launch[of cfg s] pool_inv_checkCompletion[of cfg s]
    by (subst trigger.simps) (simp add: not_le)
qed

lemma quiet_checkCompletion:
  assumes "pool_inv cfg s" "count cfg \<le> completed s \<or> draining s"
  shows "quiet cfg (checkCompletion cfg s)"
proof (cases "ended s")
  case True
  have "onError cfg \<noteq> Abort" if "draining s"
    using assms(1) that by (auto simp: pool_inv_def policy_def)
  then have "ongoing s = 0" if "draining s"
    using pool_inv_ended_idle[OF assms(1) True] pool_inv_ongoing[OF assms(1)] that by simp
  then show ?thesis using True by (simp add: quiet_def checkCompletion_def)
next
  case False
  show ?thesis
  proof (cases "count cfg \<le> completed s")
    case True
    then have "ongoing s = 0"
      using pool_inv_exhausted_idle[OF assms(1)] pool_inv_ongoing[OF assms(1)] by simp
    then show ?thesis using True False by (simp add: quiet_def checkCompletion_def Let_def)
  next
    case nex: False
    then have dr: "draining s" using assms(2) by simp
    then have "onError cfg \<noteq> Continue"
      using assms(1) by (auto simp: pool_inv_def policy_def)
    then have acc: "started s = completed s + int (length (errors s)) + ongoing s"
      using pool_inv_accounting[OF assms(1)] by simp
    show ?thesis
      using False nex dr acc pool_inv_ongoing[OF assms(1)]
      by (auto simp: quiet_def checkCompletion_def Let_def)
  qed
qed

lemma quiet_trigger: "pool_inv cfg s \<Longrightarrow> quiet cfg (trigger cfg s)"
proof (induction cfg s rule: trigger.induct)
  case (1 cfg s)
  note inv = "1.prems"
  have nd: "\<not> draining s \<Longrightarrow> \<not> ended s \<Longrightarrow> 0 < concurrency cfg \<longrightarrow> 0 < ongoing s \<Longrightarrow> quiet cfg s"
    using pool_inv_ongoing[OF inv] by (auto simp: quiet_def)
  have en: "ended s \<Longrightarrow> quiet cfg s"
    using quiet_checkCompletion[of cfg s] inv
    by (cases "draining s") (simp_all add: checkCompletion_def quiet_def)
  show ?case
    using inv "1.IH" pool_inv_launch[of cfg s] quiet_checkCompletion[of cfg s] nd en
    by (subst trigger.simps) (auto simp: not_le)
qed

section \<open>The invariant after the executor\<close>

lemma pool_inv_initial: "pool_inv cfg initial"
  by (simp add: pool_inv_def bookkeeping_def limits_def policy_def closing_def initial_def
      failures_def)

lemma pool_inv_fill: "pool_inv cfg s \<Longrightarrow> pool_inv cfg (fill cfg i s)"
proof (induction cfg i s rule: fill.induct)
  case (1 cfg i s)
  then show ?case
    using pool_inv_trigger[of cfg s] by (subst fill.simps) simp
qed

lemma quiet_fill:
  "pool_inv cfg s \<Longrightarrow> i < concurrency cfg \<and> i < count cfg \<Longrightarrow> quiet cfg (fill cfg i s)"
proof (induction cfg i s rule: fill.induct)
  case (1 cfg i s)
  show ?case
  proof (cases "i + 1 < concurrency cfg \<and> i + 1 < count cfg")
    case True
    then show ?thesis
      using "1.IH" "1.prems" pool_inv_trigger[of cfg s] by (subst fill.simps) simp
  next
    case False
    then have "fill cfg (i + 1) (trigger cfg s) = trigger cfg s"
      by (rule fill_idle)
    then show ?thesis
      using "1.prems" quiet_trigger[of cfg s] by (subst fill.simps) simp
  qed
qed

lemma PromisePool_inv:
  assumes "count cfg \<noteq> 0"
  shows "pool_inv cfg (PromisePool cfg)" "quiet cfg (PromisePool cfg)"
proof -
  show "pool_inv cfg (PromisePool cfg)"
    using assms pool_inv_fill[OF pool_inv_initial] by (simp add: PromisePool_def)
  show "quiet cfg (PromisePool cfg)"
  proof (cases "0 < concurrency cfg \<and> 0 < count cfg")
    case True
    then show ?thesis
      using assms quiet_fill[OF pool_inv_initial, of 0 cfg] by (simp add: PromisePool_def)
  next
    case False
    then have "fill cfg 0 initial = initial"
      using fill_idle[of 0 cfg] by simp
    then show ?thesis
      using assms False by (auto simp: PromisePool_def quiet_def initial_def)
  qed
qed

section \<open>The invariant when a promise settles\<close>

lemma bookkeeping_settled:
  assumes bk: "bookkeeping cfg s" and i: "i \<in> set (pending s)"
    and t: "started t = started s" "invoked t = invoked s"
      "pending t = remove1 i (pending s)" "settled t = settled s @ [i]"
      "ongoing t = ongoing s - 1"
    and e: "errors t = errors s @ failures cfg [i]"
    and c: "completed t = completed s +
              (if onError cfg = Continue \<or> failures cfg [i] = [] then 1 else 0)"
  shows "bookkeeping cfg t"
proof -
  have d: "distinct (settled s @ pending s)"
    and u: "set (settled s) \<union> set (pending s) = set (invoked s)"
    and og: "ongoing s = int (length (pending s))"
    and st: "started s = int (length (settled s)) + ongoing s"
    and er: "errors s = failures cfg (settled s)"
    and cp: "completed s = (if onError cfg = Continue then int (length (settled s))
                    else int (length (settled s)) - int (length (errors s)))"
    and iv: "0 \<le> started s" "invoked s = [0..started s - 1]"
    using bk by (simp_all add: bookkeeping_def)
  have 1: "distinct (settled t @ pending t)"
    using d i by (auto simp: t)
  have 2: "set (settled t) \<union> set (pending t) = set (invoked t)"
    using d u i unfolding t by auto
  have "0 < length (pending s)"
    using i by (rule length_pos_if_in_set)
  moreover have "length (remove1 i (pending s)) = length (pending s) - 1"
    using i by (simp add: length_remove1)
  ultimately have "int (length (remove1 i (pending s))) = int (length (pending s)) - 1"
    by linarith
  then have 3: "ongoing t = int (length (pending t))"
    using og by (simp add: t)
  have 4: "started t = int (length (settled t)) + ongoing t"
    using st by (simp add: t)
  have 5: "errors t = failures cfg (settled t)"
    using er by (simp add: t e failures_append)
  have le: "length (failures cfg [i]) = (if failures cfg [i] = [] then 0 else 1)"
    by (simp add: failures_def split: task_outcome.splits)
  have 6: "completed t = (if onError cfg = Continue then int (length (settled t))
                    else int (length (settled t)) - int (length (errors t)))"
    using cp le by (simp add: t e c)
  show ?thesis
    unfolding bookkeeping_def using 1 2 3 4 5 6 iv by (simp only: t simp_thms)
qed

lemma limits_settled:
  assumes "limits cfg s" "bookkeeping cfg s" "i \<in> set (pending s)"
    "started t = started s" "ongoing t = ongoing s - 1"
  shows "limits cfg t"
proof -
  have "0 < length (pending s)"
    using assms(3) by (rule length_pos_if_in_set)
  then have "0 < ongoing s"
    using assms(2) by (simp add: bookkeeping_def)
  then show ?thesis
    using assms(1,4,5) unfolding limits_def by auto
qed

lemma pool_inv_fulfilled:
  assumes "pool_inv cfg s" "i \<in> set (pending s)" "task cfg i = Fulfilled"
  shows "pool_inv cfg (s\<lparr>pending := remove1 i (pending s), settled := settled s @ [i],
           ongoing := ongoing s - 1, completed := completed s + 1\<rparr>)"
    (is "pool_inv cfg ?t")
proof -
  have bk: "bookkeeping cfg s" and lm: "limits cfg s" and pl: "policy cfg s" and cl: "closing cfg s"
    using assms(1) by (simp_all add: pool_inv_def)
  have fl: "failures cfg [i] = []"
    using assms(3) by (simp add: failures_def)
  have "bookkeeping cfg ?t"
    by (rule bookkeeping_settled[OF bk assms(2)]) (simp_all add: fl)
  moreover have "limits cfg ?t"
    by (rule limits_settled[OF lm bk assms(2)]) simp_all
  moreover have "policy cfg ?t"
    using pl by (simp add: policy_def)
  moreover have "closing cfg ?t"
    using cl assms(2) by (auto simp: closing_def terminal_def)
  ultimately show ?thesis by (simp add: pool_inv_def)
qed

lemma pool_inv_rejected_abort:
  assumes "pool_inv cfg s" "i \<in> set (pending s)" "task cfg i = Rejected e" "onError cfg = Abort"
  shows "pool_inv cfg (s\<lparr>pending := remove1 i (pending s), settled := settled s @ [i],
           ongoing := ongoing s - 1, errors := errors s @ [e], ended := True,
           delivered := (if ended s then delivered s else delivered s @ [Reject e])\<rparr>)"
    (is "pool_inv cfg ?t")
proof -
  have bk: "bookkeeping cfg s" and lm: "limits cfg s" and pl: "policy cfg s" and cl: "closing cfg s"
    using assms(1) by (simp_all add: pool_inv_def)
  have fl: "failures cfg [i] = [e]"
    using assms(3) by (simp add: failures_def)
  have "bookkeeping cfg ?t"
    by (rule bookkeeping_settled[OF bk assms(2)]) (simp_all add: fl assms(4))
  moreover have "limits cfg ?t"
    by (rule limits_settled[OF lm bk assms(2)]) simp_all
  moreover have "policy cfg ?t"
    using pl assms(4) by (simp add: policy_def)
  moreover have "closing cfg ?t"
    using cl pl assms(2,4) by (auto simp: closing_def terminal_def policy_def)
  ultimately show ?thesis by (simp add: pool_inv_def)
qed

lemma pool_inv_rejected_drain:
  assumes "pool_inv cfg s" "i \<in> set (pending s)" "task cfg i = Rejected e" "onError cfg = Drain"
  shows "pool_inv cfg (s\<lparr>pending := remove1 i (pending s), settled := settled s @ [i],
           ongoing := ongoing s - 1, errors := errors s @ [e], draining := True\<rparr>)"
    (is "pool_inv cfg ?t")
proof -
  have bk: "bookkeeping cfg s" and lm: "limits cfg s" and pl: "policy cfg s" and cl: "closing cfg s"
    using assms(1) by (simp_all add: pool_inv_def)
  have fl: "failures cfg [i] = [e]"
    using assms(3) by (simp add: failures_def)
  have ne: "\<not> ended s"
    using pool_inv_running[OF assms(1,2)] assms(4) by simp
  have "bookkeeping cfg ?t"
    by (rule bookkeeping_settled[OF bk assms(2)]) (simp_all add: fl assms(4))
  moreover have "limits cfg ?t"
    by (rule limits_settled[OF lm bk assms(2)]) simp_all
  moreover have "policy cfg ?t"
    using pl assms(4) by (simp add: policy_def)
  moreover have "closing cfg ?t"
    using cl ne by (simp add: closing_def)
  ultimately show ?thesis by (simp add: pool_inv_def)
qed

lemma pool_inv_rejected_continue:
  assumes "pool_inv cfg s" "i \<in> set (pending s)" "task cfg i = Rejected e" "onError cfg = Continue"
  shows "pool_inv cfg (s\<lparr>pending := remove1 i (pending s), settled := settled s @ [i],
           ongoing := ongoing s - 1, errors := errors s @ [e], completed := completed s + 1\<rparr>)"
    (is "pool_inv cfg ?t")
proof -
  have bk: "bookkeeping cfg s" and lm: "limits cfg s" and pl: "policy cfg s" and cl: "closing cfg s"
    using assms(1) by (simp_all add: pool_inv_def)
  have fl: "failures cfg [i] = [e]"
    using assms(3) by (simp add: failures_def)
  have ne: "\<not> ended s"
    using pool_inv_running[OF assms(1,2)] assms(4) by simp
  have "bookkeeping cfg ?t"
    by (rule bookkeeping_settled[OF bk assms(2)]) (simp_all add: fl assms(4))
  moreover have "limits cfg ?t"
    by (rule limits_settled[OF lm bk assms(2)]) simp_all
  moreover have "policy cfg ?t"
    using pl assms(4) by (simp add: policy_def)
  moreover have "closing cfg ?t"
    using cl ne by (simp add: closing_def)
  ultimately show ?thesis by (simp add: pool_inv_def)
qed

lemma settle_inv:
  assumes "pool_inv cfg s"
  shows "pool_inv cfg (settle cfg s i)" and "quiet cfg s \<Longrightarrow> quiet cfg (settle cfg s i)"
proof -
  consider (idle) "i \<notin> set (pending s)"
    | (ok) "i \<in> set (pending s)" "task cfg i = Fulfilled"
    | (abort) e where "i \<in> set (pending s)" "task cfg i = Rejected e" "onError cfg = Abort"
    | (drain) e where "i \<in> set (pending s)" "task cfg i = Rejected e" "onError cfg = Drain"
    | (continue) e where "i \<in> set (pending s)" "task cfg i = Rejected e" "onError cfg = Continue"
    by (cases "task cfg i"; cases "onError cfg") auto
  then have "pool_inv cfg (settle cfg s i) \<and> (quiet cfg s \<longrightarrow> quiet cfg (settle cfg s i))"
  proof cases
    case idle
    then show ?thesis using assms by (simp add: settle_idle)
  next
    case ok
    note mid = pool_inv_fulfilled[OF assms ok]
    show ?thesis
      unfolding settle_fulfilled[OF ok]
      using pool_inv_trigger[OF mid] quiet_trigger[OF mid] by simp
  next
    case abort
    note fin = pool_inv_rejected_abort[OF assms abort]
    have "\<not> draining s"
      using assms abort(3) by (simp add: pool_inv_def policy_def)
    then show ?thesis
      unfolding settle_rejected_abort[OF abort]
      using fin by (simp add: quiet_def)
  next
    case drain
    note mid = pool_inv_rejected_drain[OF assms drain]
    show ?thesis
      unfolding settle_rejected_drain[OF drain]
      using pool_inv_checkCompletion[OF mid] quiet_checkCompletion[OF mid] by simp
  next
    case continue
    note mid = pool_inv_rejected_continue[OF assms continue]
    show ?thesis
      unfolding settle_rejected_continue[OF continue]
      using pool_inv_trigger[OF mid] quiet_trigger[OF mid] by simp
  qed
  then show "pool_inv cfg (settle cfg s i)" and "quiet cfg s \<Longrightarrow> quiet cfg (settle cfg s i)"
    by simp_all
qed

section \<open>Every state of a run\<close>

lemma run_snoc: "run cfg (sched @ [i]) = settle cfg (run cfg sched) i"
  by (simp add: run_def)

lemma run_append: "run cfg (sched @ rest) = foldl (settle cfg) (run cfg sched) rest"
  by (simp add: run_def)

lemma run_nothing_to_do:
  assumes "count cfg = 0"
  shows "run cfg sched = initial\<lparr>delivered := [Resolve]\<rparr>"
proof (induction sched rule: rev_induct)
  case Nil
  show ?case using assms fill_idle[of 0 cfg initial]
    by (simp add: run_def PromisePool_def initial_def)
next
  case (snoc i sched)
  then show ?case by (simp add: run_snoc settle_def initial_def)
qed

lemma run_no_slots:
  assumes "concurrency cfg \<le> 0" "count cfg \<noteq> 0"
  shows "run cfg sched = initial"
proof (induction sched rule: rev_induct)
  case Nil
  show ?case using assms fill_idle[of 0 cfg initial]
    by (simp add: run_def PromisePool_def)
next
  case (snoc i sched)
  then show ?case by (simp add: run_snoc settle_def initial_def)
qed

lemma run_inv:
  assumes "count cfg \<noteq> 0"
  shows "pool_inv cfg (run cfg sched) \<and> quiet cfg (run cfg sched)"
proof (induction sched rule: rev_induct)
  case Nil
  show ?case using PromisePool_inv[OF assms] by (simp add: run_def)
next
  case (snoc i sched)
  then show ?case using settle_inv[of cfg "run cfg sched" i] by (simp add: run_snoc)
qed

lemma run_bookkeeping: "bookkeeping cfg (run cfg sched)"
proof (cases "count cfg = 0")
  case True
  then show ?thesis
    by (simp add: run_nothing_to_do bookkeeping_def initial_def failures_def)
next
  case False
  then show ?thesis using run_inv[of cfg sched] by (simp add: pool_inv_def)
qed

lemma run_limits: "limits cfg (run cfg sched)"
proof (cases "count cfg = 0")
  case True
  then show ?thesis
    by (simp add: run_nothing_to_do limits_def initial_def)
next
  case False
  then show ?thesis using run_inv[of cfg sched] by (simp add: pool_inv_def)
qed

lemma run_policy: "policy cfg (run cfg sched)"
proof (cases "count cfg = 0")
  case True
  then show ?thesis
    by (simp add: run_nothing_to_do policy_def initial_def)
next
  case False
  then show ?thesis using run_inv[of cfg sched] by (simp add: pool_inv_def)
qed

lemma run_quiet: "quiet cfg (run cfg sched)"
proof (cases "count cfg = 0")
  case True
  then show ?thesis
    by (simp add: run_nothing_to_do quiet_def initial_def)
next
  case False
  then show ?thesis using run_inv[of cfg sched] by simp
qed

lemma run_closing: "count cfg \<noteq> 0 \<Longrightarrow> closing cfg (run cfg sched)"
  using run_inv[of cfg sched] by (simp add: pool_inv_def)

lemma run_invoked: "invoked (run cfg sched) = [0..started (run cfg sched) - 1]"
  using run_bookkeeping[of cfg sched] by (simp add: bookkeeping_def)

lemma run_errors: "errors (run cfg sched) = failures cfg (settled (run cfg sched))"
  using run_bookkeeping[of cfg sched] by (simp add: bookkeeping_def)

lemma run_ongoing_pending: "ongoing (run cfg sched) = int (length (pending (run cfg sched)))"
  using run_bookkeeping[of cfg sched] by (simp add: bookkeeping_def)


lemma run_started_bound:
  assumes "0 \<le> count cfg"
  shows "started (run cfg sched) \<le> count cfg"
  using run_limits[of cfg sched] assms by (auto simp: limits_def)

lemma run_accounting:
  assumes "onError cfg \<noteq> Continue"
  shows "started (run cfg sched) =
         completed (run cfg sched) + int (length (errors (run cfg sched))) + ongoing (run cfg sched)"
  using run_bookkeeping[of cfg sched] assms by (simp add: bookkeeping_def)

lemma run_accounting_continue:
  assumes "onError cfg = Continue"
  shows "started (run cfg sched) = completed (run cfg sched) + ongoing (run cfg sched)"
    and "int (length (errors (run cfg sched))) \<le> completed (run cfg sched)"
  using run_bookkeeping[of cfg sched] assms length_failures_le[of cfg "settled (run cfg sched)"]
  by (simp_all add: bookkeeping_def)

lemma run_completed_successes:
  assumes "onError cfg \<noteq> Continue"
  shows "completed (run cfg sched) =
         int (length (filter (\<lambda>i. \<not> fails cfg i) (settled (run cfg sched))))"
proof -
  have "completed (run cfg sched) =
        int (length (settled (run cfg sched))) -
        int (length (filter (fails cfg) (settled (run cfg sched))))"
    using run_bookkeeping[of cfg sched] assms by (simp add: bookkeeping_def length_failures)
  then show ?thesis
    using sum_length_filter_compl[of "fails cfg" "settled (run cfg sched)"] by linarith
qed

lemma run_drained:
  "draining (run cfg sched) \<Longrightarrow> ended (run cfg sched) \<longleftrightarrow> ongoing (run cfg sched) = 0"
  using run_quiet[of cfg sched] by (simp add: quiet_def)

lemma run_delivered_ended:
  assumes "count cfg \<noteq> 0"
  shows "ended (run cfg sched) \<longleftrightarrow> delivered (run cfg sched) \<noteq> []"
    and "length (delivered (run cfg sched)) \<le> 1"
  using run_closing[OF assms, of sched] by (simp_all add: closing_def)

lemma run_stalls_only_ended:
  assumes "0 < concurrency cfg" "0 < count cfg" "pending (run cfg sched) = []"
  shows "ended (run cfg sched)"
  using run_quiet[of cfg sched] assms by (auto simp: quiet_def)

lemma run_all_settled:
  assumes "pending (run cfg sched) = []"
  shows "length (errors (run cfg sched)) = length (filter (fails cfg) (invoked (run cfg sched)))"
proof -
  have d: "distinct (settled (run cfg sched))"
    and u: "set (settled (run cfg sched)) = set (invoked (run cfg sched))"
    using run_bookkeeping[of cfg sched] assms by (simp_all add: bookkeeping_def)
  have di: "distinct (invoked (run cfg sched))"
    by (simp add: run_invoked)
  have "length (filter (fails cfg) (settled (run cfg sched))) =
        length (filter (fails cfg) (invoked (run cfg sched)))"
    using d di u by (simp add: distinct_length_filter)
  then show ?thesis by (simp add: run_errors length_failures)
qed

lemma run_continue_finished:
  assumes "onError cfg = Continue" "0 < concurrency cfg" "0 \<le> count cfg"
    "pending (run cfg sched) = []"
  shows "started (run cfg sched) = count cfg"
    and "delivered (run cfg sched) =
          [if errors (run cfg sched) = [] then Resolve
           else RejectAggregate (errors (run cfg sched))
                  (failed_message (length (errors (run cfg sched))))]"
proof -
  have both: "started (run cfg sched) = count cfg \<and> delivered (run cfg sched) =
          [if errors (run cfg sched) = [] then Resolve
           else RejectAggregate (errors (run cfg sched))
                  (failed_message (length (errors (run cfg sched))))]"
  proof (cases "count cfg = 0")
    case True
    then show ?thesis by (simp add: run_nothing_to_do initial_def)
  next
    case False
    then have pos: "0 < count cfg" using assms(3) by simp
    have en: "ended (run cfg sched)"
      using run_stalls_only_ended[OF assms(2) pos assms(4)] .
    have nd: "\<not> draining (run cfg sched)"
      using run_policy[of cfg sched] assms(1) by (simp add: policy_def)
    have cl: "closing cfg (run cfg sched)"
      using run_closing[OF False] .
    have "count cfg \<le> completed (run cfg sched)"
      using cl en nd assms(1) by (simp add: closing_def)
    moreover have "started (run cfg sched) = completed (run cfg sched)"
      using run_accounting_continue(1)[OF assms(1), of sched] run_ongoing_pending[of cfg sched]
        assms(4) by simp
    moreover have "started (run cfg sched) \<le> count cfg"
      using run_started_bound[OF assms(3)] .
    ultimately have "started (run cfg sched) = count cfg" by linarith
    then show ?thesis
      using cl en assms(1) by (simp add: closing_def terminal_def)
  qed
  from both show "started (run cfg sched) = count cfg" by simp
  from both show "delivered (run cfg sched) =
          [if errors (run cfg sched) = [] then Resolve
           else RejectAggregate (errors (run cfg sched))
                  (failed_message (length (errors (run cfg sched))))]" by simp
qed

section \<open>The claims\<close>

subsection \<open>C1: the counters\<close>

text \<open>
  Claim C1, as the code has it. At every point between two steps of a run with a
  non-negative \<open>count\<close>, \<open>started \<le> count\<close>. Under \<open>Abort\<close> and \<open>Drain\<close>
  \<open>started = completed + errors.length + ongoing\<close>. Under \<open>Continue\<close> the rejection handler
  adds the failed task to \<open>errors\<close> and to \<open>completed\<close>, so there
  \<open>started = completed + ongoing\<close> and \<open>errors.length \<le> completed\<close>.
\<close>

theorem accounting_by_policy:
  assumes "0 \<le> count cfg"
  shows "started (run cfg sched) \<le> count cfg \<and>
    (onError cfg \<noteq> Continue \<longrightarrow>
       started (run cfg sched) =
       completed (run cfg sched) + int (length (errors (run cfg sched))) + ongoing (run cfg sched)) \<and>
    (onError cfg = Continue \<longrightarrow>
       started (run cfg sched) = completed (run cfg sched) + ongoing (run cfg sched) \<and>
       int (length (errors (run cfg sched))) \<le> completed (run cfg sched))"
  using run_started_bound[OF assms] run_accounting[of cfg sched] run_accounting_continue[of cfg sched]
  by blast

theorem accounting_by_policy_witness:
  "0 \<le> count (demo Continue) \<and> onError (demo Continue) = Continue \<and>
   started (run (demo Continue) [1]) = 3 \<and> completed (run (demo Continue) [1]) = 1 \<and>
   ongoing (run (demo Continue) [1]) = 2 \<and> length (errors (run (demo Continue) [1])) = 1 \<and>
   started (run (demo Continue) [1]) \<le> count (demo Continue) \<and>
   0 \<le> count (demo Drain) \<and> onError (demo Drain) \<noteq> Continue \<and>
   started (run (demo Drain) [1]) = 2 \<and> completed (run (demo Drain) [1]) = 0 \<and>
   ongoing (run (demo Drain) [1]) = 1 \<and> length (errors (run (demo Drain) [1])) = 1"
  using accounting_by_policy[of "demo Continue" "[1]"] accounting_by_policy[of "demo Drain" "[1]"]
  by code_simp

text \<open>
  Claim C1 as stated fails under \<open>Continue\<close>: after the task of index 1 has failed
  first, \<open>started = 3\<close> while \<open>completed + errors.length + ongoing = 1 + 1 + 2\<close>.
\<close>

theorem continue_failure_counted_twice:
  "started (run (demo Continue) [1]) \<noteq>
   completed (run (demo Continue) [1]) + int (length (errors (run (demo Continue) [1])))
     + ongoing (run (demo Continue) [1])"
  by code_simp

subsection \<open>C2: the first failure under Abort\<close>

text \<open>
  Claim C2. Under \<open>Abort\<close>, at every point of a run at which some settled task has
  failed (so from the end of the handler of the first failure on, whatever is still in
  flight), the run has ended and \<^verbatim>\<open>reject\<close> has been called exactly once, with the
  failure value of the first task that failed, itself and not inside an aggregate, and
  \<^verbatim>\<open>resolve\<close> has not been called.
\<close>

theorem abort_rejects_with_first_failure:
  assumes "onError cfg = Abort" and "failures cfg (settled (run cfg sched)) \<noteq> []"
  shows "ended (run cfg sched) \<and>
         delivered (run cfg sched) = [Reject (hd (failures cfg (settled (run cfg sched))))]"
proof -
  have nz: "count cfg \<noteq> 0"
    using assms(2) by (auto simp: run_nothing_to_do initial_def failures_def)
  have er: "errors (run cfg sched) = failures cfg (settled (run cfg sched))"
    using run_bookkeeping[of cfg sched] by (simp add: bookkeeping_def)
  have en: "ended (run cfg sched)"
    using run_policy[of cfg sched] assms er by (simp add: policy_def)
  then show ?thesis
    using run_closing[OF nz, of sched] assms er by (simp add: closing_def terminal_def)
qed

theorem abort_rejects_with_first_failure_witness:
  "onError (demo Abort) = Abort \<and> failures (demo Abort) (settled (run (demo Abort) [1])) \<noteq> [] \<and>
   pending (run (demo Abort) [1]) = [0] \<and>
   delivered (run (demo Abort) [1]) = [Reject ''boom''] \<and>
   delivered (run (demo Abort) [1, 0]) = [Reject ''boom'']"
  using abort_rejects_with_first_failure[of "demo Abort" "[1]"]
    abort_rejects_with_first_failure[of "demo Abort" "[1, 0]"]
  by code_simp

subsection \<open>C3: the outcome of the completion check\<close>

text \<open>
  Claim C3. When \<^verbatim>\<open>checkCompletion\<close> finalizes (the run has not ended, and either
  \<open>completed \<ge> count\<close> or the run is draining with nothing in flight), it sets \<open>ended\<close>
  and makes one call: \<^verbatim>\<open>resolve()\<close> when \<open>errors\<close> is empty, otherwise \<^verbatim>\<open>reject\<close> with
  the aggregate of \<open>errors\<close> and the message built from their number; so no aggregate
  carries an empty list. In every other state it does nothing. For a run under \<open>Drain\<close>
  or \<open>Continue\<close> that has ended, this is the only call made, and \<open>errors\<close> holds the
  failures of the settled tasks in the order of their resolution. The message for \<open>n\<close>
  errors is the decimal numeral of \<open>n\<close> followed by \<^verbatim>\<open> task(s) failed\<close>, and no other
  string.
\<close>

theorem completion_check_outcome:
  "(\<not> ended s \<and>
      (count cfg \<le> completed s \<or>
       draining s \<and> started s = completed s + int (length (errors s)) + ongoing s \<and> ongoing s = 0) \<longrightarrow>
      ended (checkCompletion cfg s) \<and>
      delivered (checkCompletion cfg s) = delivered s @
        [if errors s = [] then Resolve
         else RejectAggregate (errors s) (failed_message (length (errors s)))]) \<and>
   (ended s \<or>
      \<not> (count cfg \<le> completed s \<or>
         draining s \<and> started s = completed s + int (length (errors s)) + ongoing s \<and> ongoing s = 0) \<longrightarrow>
      checkCompletion cfg s = s) \<and>
   (onError cfg \<noteq> Abort \<and> ended (run cfg sched) \<longrightarrow>
      errors (run cfg sched) = failures cfg (settled (run cfg sched)) \<and>
      delivered (run cfg sched) =
        [if errors (run cfg sched) = [] then Resolve
         else RejectAggregate (errors (run cfg sched))
                (failed_message (length (errors (run cfg sched))))]) \<and>
   (failed_message n = ds @ '' task(s) failed'' \<longleftrightarrow> decimal_numeral ds n)"
proof -
  have a: "ended (checkCompletion cfg s) \<and>
      delivered (checkCompletion cfg s) = delivered s @
        [if errors s = [] then Resolve
         else RejectAggregate (errors s) (failed_message (length (errors s)))]"
    if "\<not> ended s" "count cfg \<le> completed s \<or>
       draining s \<and> started s = completed s + int (length (errors s)) + ongoing s \<and> ongoing s = 0"
    using that by (auto simp: checkCompletion_def Let_def)
  have b: "errors (run cfg sched) = failures cfg (settled (run cfg sched)) \<and>
      delivered (run cfg sched) =
        [if errors (run cfg sched) = [] then Resolve
         else RejectAggregate (errors (run cfg sched))
                (failed_message (length (errors (run cfg sched))))]"
    if "onError cfg \<noteq> Abort" "ended (run cfg sched)"
  proof -
    have nz: "count cfg \<noteq> 0"
      using that(2) by (auto simp: run_nothing_to_do initial_def)
    show ?thesis
      using run_closing[OF nz, of sched] run_bookkeeping[of cfg sched] that
      by (simp add: closing_def terminal_def bookkeeping_def)
  qed
  show ?thesis
    using a b checkCompletion_idle[of s cfg] failed_message_numeral[of n ds] by blast
qed

theorem completion_check_outcome_witness:
  "\<not> ended ((run (demo Drain) [1])\<lparr>ongoing := 0, completed := 1\<rparr>) \<and>
   draining ((run (demo Drain) [1])\<lparr>ongoing := 0, completed := 1\<rparr>) \<and>
   delivered (checkCompletion (demo Drain) ((run (demo Drain) [1])\<lparr>ongoing := 0, completed := 1\<rparr>)) =
     [RejectAggregate [''boom''] ''1 task(s) failed''] \<and>
   \<not> ended (run (demo Drain) [1]) \<and>
   checkCompletion (demo Drain) (run (demo Drain) [1]) = run (demo Drain) [1] \<and>
   onError (demo Continue) \<noteq> Abort \<and> ended (run (demo Continue) [0, 1, 2]) \<and>
   delivered (run (demo Continue) [0, 1, 2]) = [RejectAggregate [''boom''] ''1 task(s) failed''] \<and>
   ended (run ((demo Continue)\<lparr>task := \<lambda>i. Fulfilled\<rparr>) [0, 1, 2]) \<and>
   delivered (run ((demo Continue)\<lparr>task := \<lambda>i. Fulfilled\<rparr>) [0, 1, 2]) = [Resolve] \<and>
   count (demo Continue) \<le> completed (initial\<lparr>errors := replicate 12 ''boom'', completed := 3\<rparr>) \<and>
   delivered (checkCompletion (demo Continue)
       (initial\<lparr>errors := replicate 12 ''boom'', completed := 3\<rparr>)) =
     [RejectAggregate (replicate 12 ''boom'') ''12 task(s) failed''] \<and>
   decimal_numeral ''12'' 12 \<and> failed_message 12 = ''12 task(s) failed'' \<and>
   \<not> decimal_numeral ''1'' 3 \<and> failed_message 3 = ''3 task(s) failed''"
  using completion_check_outcome[of "(run (demo Drain) [1])\<lparr>ongoing := 0, completed := 1\<rparr>" "demo Drain" "[]" 12 "''12''"]
    completion_check_outcome[of "run (demo Drain) [1]" "demo Drain" "[]" 3 "''1''"]
    completion_check_outcome[of "initial\<lparr>errors := replicate 12 ''boom'', completed := 3\<rparr>" "demo Continue" "[0, 1, 2]" 3 "''3''"]
    completion_check_outcome[of initial "(demo Continue)\<lparr>task := \<lambda>i. Fulfilled\<rparr>" "[0, 1, 2]" 0 "''0''"]
  by code_simp

subsection \<open>C4: no tasks\<close>

text \<open>
  Claim C4. With \<open>count = 0\<close> the executor calls \<^verbatim>\<open>resolve()\<close> before it returns, and the
  task is never called, neither by the executor nor at any later point of the run,
  whatever \<open>concurrency\<close> and \<open>onError\<close> are.
\<close>

theorem count_zero_succeeds_at_once:
  assumes "count cfg = 0"
  shows "delivered (PromisePool cfg) = [Resolve] \<and> invoked (PromisePool cfg) = [] \<and>
         delivered (run cfg sched) = [Resolve] \<and> invoked (run cfg sched) = []"
proof -
  have p: "PromisePool cfg = initial\<lparr>delivered := [Resolve]\<rparr>"
    using run_nothing_to_do[OF assms, of "[]"] by (simp add: run_def)
  have r: "run cfg sched = initial\<lparr>delivered := [Resolve]\<rparr>"
    by (rule run_nothing_to_do[OF assms])
  show ?thesis
    by (simp add: p r initial_def)
qed

theorem count_zero_succeeds_at_once_witness:
  "count ((demo Drain)\<lparr>count := 0\<rparr>) = 0 \<and>
   delivered (PromisePool ((demo Drain)\<lparr>count := 0\<rparr>)) = [Resolve] \<and>
   invoked (run ((demo Drain)\<lparr>count := 0\<rparr>) [0, 1]) = []"
  using count_zero_succeeds_at_once[of "(demo Drain)\<lparr>count := 0\<rparr>" "[0, 1]"]
  by (simp add: demo_def)

subsection \<open>C5: one terminal outcome\<close>

text \<open>
  Claim C5, as the code has it. In every run \<^verbatim>\<open>resolve\<close> and \<^verbatim>\<open>reject\<close> are called at
  most once altogether, \<open>ended\<close> never goes back to false, and once a call has been
  made no later step makes another call or launches a task, whatever settles
  afterwards. With \<open>count = 0\<close> the one call is made by the executor and \<open>ended\<close> stays
  false; with any other \<open>count\<close> a call has been made exactly when \<open>ended\<close> is true, and
  with positive \<open>count\<close> and \<open>concurrency\<close> that is the case as soon as nothing is in
  flight.
\<close>

theorem single_delivery:
  "length (delivered (run cfg sched)) \<le> 1 \<and>
   (ended (run cfg sched) \<longrightarrow> ended (run cfg (sched @ rest))) \<and>
   (delivered (run cfg sched) \<noteq> [] \<longrightarrow>
      delivered (run cfg (sched @ rest)) = delivered (run cfg sched) \<and>
      invoked (run cfg (sched @ rest)) = invoked (run cfg sched)) \<and>
   (count cfg = 0 \<longrightarrow> delivered (run cfg sched) = [Resolve] \<and> \<not> ended (run cfg sched)) \<and>
   (count cfg \<noteq> 0 \<longrightarrow> (ended (run cfg sched) \<longleftrightarrow> delivered (run cfg sched) \<noteq> [])) \<and>
   (0 < count cfg \<and> 0 < concurrency cfg \<and> pending (run cfg sched) = [] \<longrightarrow>
      ended (run cfg sched) \<and> length (delivered (run cfg sched)) = 1)"
proof (cases "count cfg = 0")
  case True
  have "run cfg sched = initial\<lparr>delivered := [Resolve]\<rparr>"
    and "run cfg (sched @ rest) = initial\<lparr>delivered := [Resolve]\<rparr>"
    using True by (simp_all add: run_nothing_to_do)
  then show ?thesis using True by (simp add: initial_def)
next
  case False
  note de = run_delivered_ended[OF False, of sched]
  have keep: "delivered (run cfg (sched @ rest)) = delivered (run cfg sched) \<and>
      invoked (run cfg (sched @ rest)) = invoked (run cfg sched) \<and> ended (run cfg (sched @ rest))"
    if "ended (run cfg sched)"
    using foldl_settle_after_end[OF that, of cfg rest] by (simp add: run_append)
  have fin: "ended (run cfg sched) \<and> length (delivered (run cfg sched)) = 1"
    if "0 < count cfg" "0 < concurrency cfg" "pending (run cfg sched) = []"
  proof -
    have e: "ended (run cfg sched)"
      using run_stalls_only_ended[OF that(2,1,3)] .
    then have "delivered (run cfg sched) \<noteq> []" using de(1) by simp
    then have "length (delivered (run cfg sched)) = 1"
      using de(2) by (cases "delivered (run cfg sched)") simp_all
    then show ?thesis using e by simp
  qed
  show ?thesis using False de keep fin by blast
qed

theorem single_delivery_witness:
  "ended (run (demo Abort) [1]) \<and> pending (run (demo Abort) [1]) = [0] \<and>
   delivered (run (demo Abort) [1]) = [Reject ''boom''] \<and>
   delivered (run (demo Abort) ([1] @ [0])) = [Reject ''boom''] \<and>
   invoked (run (demo Abort) ([1] @ [0])) = [0, 1] \<and>
   count ((demo Abort)\<lparr>count := 0\<rparr>) = 0 \<and>
   delivered (run ((demo Abort)\<lparr>count := 0\<rparr>) []) = [Resolve] \<and>
   0 < count (demo Continue) \<and> 0 < concurrency (demo Continue) \<and>
   pending (run (demo Continue) [0, 1, 2]) = [] \<and>
   length (delivered (run (demo Continue) [0, 1, 2])) = 1"
  using single_delivery[of "demo Abort" "[1]" "[0]"]
    single_delivery[of "(demo Abort)\<lparr>count := 0\<rparr>" "[]" "[]"]
    single_delivery[of "demo Continue" "[0, 1, 2]" "[]"]
  by code_simp

text \<open>
  Claim C5 as stated fails: with \<open>count = 0\<close> the outcome is delivered and \<open>ended\<close> is
  never set, and with \<open>concurrency = 0\<close> and \<open>count = 3\<close> nothing is in flight and no
  outcome is ever delivered.
\<close>

theorem ended_never_set_for_empty_pool:
  "delivered (run ((demo Abort)\<lparr>count := 0\<rparr>) []) = [Resolve] \<and>
   \<not> ended (run ((demo Abort)\<lparr>count := 0\<rparr>) []) \<and>
   delivered (run ((demo Abort)\<lparr>concurrency := 0\<rparr>) []) = [] \<and>
   pending (run ((demo Abort)\<lparr>concurrency := 0\<rparr>) []) = []"
  by code_simp

subsection \<open>C6: the dispatch step\<close>

text \<open>
  Claim C6, as the code has it. When \<^verbatim>\<open>trigger\<close> is called in a state that has not
  ended, has \<open>completed < count\<close> and is not draining, no task is launched exactly when
  \<open>completed + ongoing \<ge> count\<close> or \<open>ongoing \<ge> concurrency\<close>, and then the state is left
  as it is; otherwise the index \<open>started\<close> is handed to the task, \<open>started\<close> and
  \<open>ongoing\<close> go up by one, and \<^verbatim>\<open>trigger\<close> calls itself on the new state.
\<close>

theorem dispatch_step:
  assumes "\<not> ended s" and "completed s < count cfg" and "\<not> draining s"
  shows "(invoked (trigger cfg s) = invoked s \<longleftrightarrow>
            count cfg \<le> completed s + ongoing s \<or> concurrency cfg \<le> ongoing s) \<and>
         (count cfg \<le> completed s + ongoing s \<or> concurrency cfg \<le> ongoing s \<longrightarrow>
            trigger cfg s = s) \<and>
         (completed s + ongoing s < count cfg \<and> ongoing s < concurrency cfg \<longrightarrow>
            trigger cfg s =
            trigger cfg (s\<lparr>started := started s + 1, ongoing := ongoing s + 1,
                            invoked := invoked s @ [started s],
                            pending := pending s @ [started s]\<rparr>))"
proof (cases "count cfg \<le> completed s + ongoing s \<or> concurrency cfg \<le> ongoing s")
  case True
  then show ?thesis
    using trigger_waits[OF assms True] by auto
next
  case False
  then have go: "completed s + ongoing s < count cfg" "ongoing s < concurrency cfg"
    by auto
  show ?thesis
    using False trigger_launches[OF assms go] by (simp add: launch_def Let_def)
qed

theorem dispatch_step_witness:
  "\<not> ended first_fulfilled \<and> completed first_fulfilled < count (demo Abort) \<and>
   \<not> draining first_fulfilled \<and>
   completed first_fulfilled + ongoing first_fulfilled < count (demo Abort) \<and>
   ongoing first_fulfilled < concurrency (demo Abort) \<and>
   invoked first_fulfilled = [0, 1] \<and> started first_fulfilled = 2 \<and>
   invoked (trigger (demo Abort) first_fulfilled) = [0, 1, 2] \<and>
   \<not> ended (PromisePool (demo Abort)) \<and> completed (PromisePool (demo Abort)) < count (demo Abort) \<and>
   \<not> draining (PromisePool (demo Abort)) \<and>
   concurrency (demo Abort) \<le> ongoing (PromisePool (demo Abort)) \<and>
   trigger (demo Abort) (PromisePool (demo Abort)) = PromisePool (demo Abort)"
  using dispatch_step[of first_fulfilled "demo Abort"]
    dispatch_step[of "PromisePool (demo Abort)" "demo Abort"]
  by code_simp

text \<open>
  Claim C6 as stated fails: in the run of three tasks on two slots, when the task of
  index 0 settles first, its handler calls \<^verbatim>\<open>trigger\<close> with \<open>started = 2\<close> and
  \<open>ongoing = 1\<close>, so \<open>started + ongoing \<ge> count\<close>, and the task of index 2 is launched
  all the same.
\<close>

theorem dispatch_launches_despite_started:
  "\<not> ended first_fulfilled \<and> completed first_fulfilled < count (demo Abort) \<and>
   \<not> draining first_fulfilled \<and>
   count (demo Abort) \<le> started first_fulfilled + ongoing first_fulfilled \<and>
   invoked first_fulfilled = [0, 1] \<and>
   invoked (trigger (demo Abort) first_fulfilled) = [0, 1, 2] \<and>
   run (demo Abort) [0] = trigger (demo Abort) first_fulfilled"
  by code_simp

subsection \<open>C7: the concurrency bound\<close>



subsection \<open>C8: every task under Continue\<close>

text \<open>
  Claim C8. Under \<open>Continue\<close> with a positive \<open>concurrency\<close> (and a non-negative
  \<open>count\<close>), the indices handed to the task are always \<open>0, 1, ...\<close> in this order, each
  once and none beyond \<open>count - 1\<close>; and whenever no launched task is left in flight,
  every index below \<open>count\<close> has been handed out, the number of collected errors is the
  number of indices below \<open>count\<close> whose task fails, and the one delivery made is
  \<^verbatim>\<open>resolve()\<close> if there is none and the aggregate of these errors otherwise.
\<close>

theorem continue_runs_every_task:
  assumes "onError cfg = Continue" and "0 < concurrency cfg" and "0 \<le> count cfg"
  shows "invoked (run cfg sched) = [0..started (run cfg sched) - 1] \<and>
         started (run cfg sched) \<le> count cfg \<and>
         (pending (run cfg sched) = [] \<longrightarrow>
            invoked (run cfg sched) = [0..count cfg - 1] \<and>
            length (errors (run cfg sched)) = length (filter (fails cfg) [0..count cfg - 1]) \<and>
            delivered (run cfg sched) =
              [if errors (run cfg sched) = [] then Resolve
               else RejectAggregate (errors (run cfg sched))
                      (failed_message (length (errors (run cfg sched))))])"
proof -
  have fin: "invoked (run cfg sched) = [0..count cfg - 1] \<and>
            length (errors (run cfg sched)) = length (filter (fails cfg) [0..count cfg - 1]) \<and>
            delivered (run cfg sched) =
              [if errors (run cfg sched) = [] then Resolve
               else RejectAggregate (errors (run cfg sched))
                      (failed_message (length (errors (run cfg sched))))]"
    if p: "pending (run cfg sched) = []"
  proof -
    have iv: "invoked (run cfg sched) = [0..count cfg - 1]"
      using run_invoked[of cfg sched] run_continue_finished(1)[OF assms p] by simp
    show ?thesis
      using iv run_all_settled[OF p] run_continue_finished(2)[OF assms p] by simp
  qed
  show ?thesis
    using run_invoked[of cfg sched] run_started_bound[OF assms(3), of sched] fin by blast
qed

theorem continue_runs_every_task_witness:
  "onError (demo Continue) = Continue \<and> 0 < concurrency (demo Continue) \<and>
   0 \<le> count (demo Continue) \<and> pending (run (demo Continue) [1, 0, 2]) = [] \<and>
   invoked (run (demo Continue) [1, 0, 2]) = [0, 1, 2] \<and>
   filter (fails (demo Continue)) [0..count (demo Continue) - 1] = [1] \<and>
   delivered (run (demo Continue) [1, 0, 2]) = [RejectAggregate [''boom''] ''1 task(s) failed'']"
  using continue_runs_every_task[of "demo Continue" "[1, 0, 2]"]
  by code_simp

subsection \<open>C9: no slots\<close>

text \<open>
  Claim C9. With \<open>concurrency \<le> 0\<close> and \<open>count > 0\<close> the loop of the executor never calls
  \<^verbatim>\<open>trigger\<close>: no task is ever launched, and neither \<^verbatim>\<open>resolve\<close> nor \<^verbatim>\<open>reject\<close> is
  ever called, at any point of any run.
\<close>

theorem no_slots_no_launch_no_outcome:
  assumes "concurrency cfg \<le> 0" and "0 < count cfg"
  shows "invoked (run cfg sched) = [] \<and> delivered (run cfg sched) = [] \<and>
         \<not> ended (run cfg sched)"
  using run_no_slots[of cfg sched] assms by (simp add: initial_def)

theorem no_slots_no_launch_no_outcome_witness:
  "concurrency ((demo Continue)\<lparr>concurrency := 0\<rparr>) \<le> 0 \<and>
   0 < count ((demo Continue)\<lparr>concurrency := 0\<rparr>) \<and>
   invoked (run ((demo Continue)\<lparr>concurrency := 0\<rparr>) [0, 1, 2]) = [] \<and>
   delivered (run ((demo Continue)\<lparr>concurrency := 0\<rparr>) [0, 1, 2]) = []"
  using no_slots_no_launch_no_outcome[of "(demo Continue)\<lparr>concurrency := 0\<rparr>" "[0, 1, 2]"]
  by (simp add: demo_def)

subsection \<open>C10: the counters under Abort and Drain\<close>

text \<open>
  Claim C10. Under \<open>Abort\<close> and \<open>Drain\<close> the equation
  \<open>started = completed + errors.length + ongoing\<close> holds in the initial state and is kept
  by every call of \<^verbatim>\<open>trigger\<close> and \<^verbatim>\<open>checkCompletion\<close> and by every handler, so it holds
  at every point of a run; there \<open>completed\<close> is the number of settled tasks that
  succeeded. Once \<open>draining\<close> is set, the run has ended exactly when \<open>ongoing = 0\<close>: the
  step that settles a pending task takes \<open>ongoing\<close> down by one and ends the run exactly
  when that was the last task in flight.
\<close>

theorem abort_drain_accounting:
  assumes "onError (cfg :: 'e PromisePoolOptions) = Abort \<or> onError cfg = Drain"
  shows "accounted (initial :: 'e pool) \<and>
         (accounted s \<longrightarrow>
            accounted (trigger cfg s) \<and> accounted (checkCompletion cfg s) \<and>
            accounted (settle cfg s j)) \<and>
         accounted (run cfg sched) \<and>
         completed (run cfg sched) =
           int (length (filter (\<lambda>i. \<not> fails cfg i) (settled (run cfg sched)))) \<and>
         (draining (run cfg sched) \<longrightarrow>
            (ended (run cfg sched) \<longleftrightarrow> ongoing (run cfg sched) = 0) \<and>
            (i \<in> set (pending (run cfg sched)) \<longrightarrow>
               ongoing (run cfg (sched @ [i])) = ongoing (run cfg sched) - 1 \<and>
               (ended (run cfg (sched @ [i])) \<longleftrightarrow> ongoing (run cfg sched) = 1)))"
proof -
  have nc: "onError cfg \<noteq> Continue" using assms by auto
  have init: "accounted (initial :: 'e pool)"
    by (simp add: accounted_def initial_def)
  have steps: "accounted (trigger cfg s) \<and> accounted (checkCompletion cfg s) \<and>
            accounted (settle cfg s j)" if "accounted s"
    using that accounted_trigger[of s cfg] accounted_settle[OF that nc, of j]
    by (simp add: accounted_checkCompletion)
  have step: "ongoing (run cfg (sched @ [i])) = ongoing (run cfg sched) - 1 \<and>
              (ended (run cfg (sched @ [i])) \<longleftrightarrow> ongoing (run cfg sched) = 1)"
    if d: "draining (run cfg sched)" and i: "i \<in> set (pending (run cfg sched))"
  proof -
    have og: "ongoing (run cfg (sched @ [i])) = ongoing (run cfg sched) - 1"
      using settle_draining(4)[OF d, of cfg i] i by (simp add: run_snoc)
    have "draining (run cfg (sched @ [i]))"
      using settle_draining(1)[OF d, of cfg i] by (simp add: run_snoc)
    then have "ended (run cfg (sched @ [i])) \<longleftrightarrow> ongoing (run cfg (sched @ [i])) = 0"
      by (rule run_drained)
    then show ?thesis using og by auto
  qed
  have "accounted (run cfg sched)"
    using run_accounting[OF nc, of sched] by (simp add: accounted_def)
  then show ?thesis
    using init steps run_completed_successes[OF nc, of sched] run_drained[of cfg sched] step
    by blast
qed

theorem abort_drain_accounting_witness:
  "(onError (demo Drain) = Abort \<or> onError (demo Drain) = Drain) \<and>
   accounted (PromisePool (demo Drain)) \<and>
   accounted (settle (demo Drain) (PromisePool (demo Drain)) 1) \<and>
   draining (run (demo Drain) [1]) \<and> 0 \<in> set (pending (run (demo Drain) [1])) \<and>
   started (run (demo Drain) [1]) = 2 \<and> completed (run (demo Drain) [1]) = 0 \<and>
   length (errors (run (demo Drain) [1])) = 1 \<and> ongoing (run (demo Drain) [1]) = 1 \<and>
   \<not> ended (run (demo Drain) [1]) \<and>
   ongoing (run (demo Drain) ([1] @ [0])) = 0 \<and> ended (run (demo Drain) ([1] @ [0]))"
  using abort_drain_accounting[of "demo Drain" "PromisePool (demo Drain)" 1 "[1]" 0]
  by code_simp

end
